theory Spec2Isabelle
  imports Main
begin

section \<open>AudioGenerator: pending note-offs\<close>

text \<open>
  \<^verbatim>\<open>struct NoteOff { int pitch; size_t frame; struct Comparator { ... }; };\<close>
  The comparator is the strict order that \<^verbatim>\<open>std::set<NoteOff, NoteOff::Comparator>\<close>
  is instantiated with: \<^verbatim>\<open>return n1.frame < n2.frame;\<close>
\<close>

record NoteOff =
  pitch :: int
  frame :: nat

definition Comparator :: "NoteOff \<Rightarrow> NoteOff \<Rightarrow> bool" where
  "Comparator n1 n2 = (frame n1 < frame n2)"

text \<open>
  The container itself is the C++ standard library's \<^verbatim>\<open>std::set\<close>: elements are kept
  in the order of the comparator, iteration visits them in that order, and \<^verbatim>\<open>insert\<close>
  leaves the set as it is when it already holds an element equivalent to the new one
  (neither compares less than the other). The set is represented by the list of its
  elements in iteration order.
\<close>

fun set_insert :: "('a \<Rightarrow> 'a \<Rightarrow> bool) \<Rightarrow> 'a \<Rightarrow> 'a list \<Rightarrow> 'a list" where
  "set_insert cmp x [] = [x]"
| "set_insert cmp x (y # ys) =
     (if cmp x y then x # y # ys
      else if cmp y x then y # set_insert cmp x ys
      else y # ys)"

type_synonym NoteOffSet = "NoteOff list"

definition NoteOffSet_insert :: "NoteOff \<Rightarrow> NoteOffSet \<Rightarrow> NoteOffSet" where
  "NoteOffSet_insert n s = set_insert Comparator n s"

text \<open>The set reached from the empty set by inserting \<open>ns\<close> from left to right.\<close>

definition NoteOffSet_of :: "NoteOff list \<Rightarrow> NoteOffSet" where
  "NoteOffSet_of ns = foldl (\<lambda>s n. NoteOffSet_insert n s) [] ns"

section \<open>AudioCallbackPlaySource: ring buffer accessors\<close>

text \<open>
  A pointer is \<open>None\<close> when null. \<^verbatim>\<open>RingBufferVector\<close> derives from
  \<^verbatim>\<open>std::vector<RingBuffer<float> *>\<close>; its \<^verbatim>\<open>operator[]\<close> is undefined outside
  the vector, which the model records as the error \<open>IndexOutOfRange\<close>.
\<close>

datatype access_error = IndexOutOfRange

type_synonym 'p RingBufferVector = "'p option list"

definition vector_at :: "'p RingBufferVector \<Rightarrow> nat \<Rightarrow> access_error + 'p option" where
  "vector_at v c = (if c < length v then Inr (v ! c) else Inl IndexOutOfRange)"

record 'p AudioCallbackPlaySource =
  m_readBuffers :: "'p RingBufferVector option"
  m_writeBuffers :: "'p RingBufferVector option"
  m_playing :: bool
  m_exiting :: bool

definition getWriteRingBuffer ::
  "'p AudioCallbackPlaySource \<Rightarrow> nat \<Rightarrow> access_error + 'p option" where
  "getWriteRingBuffer src c =
     (case m_writeBuffers src of
        None \<Rightarrow> Inr None
      | Some wb \<Rightarrow> if c < length wb then vector_at wb c else Inr None)"

definition getReadRingBuffer ::
  "'p AudioCallbackPlaySource \<Rightarrow> nat \<Rightarrow> access_error + 'p option" where
  "getReadRingBuffer src c =
     (let rb = m_readBuffers src in
      case rb of
        None \<Rightarrow> Inr None
      | Some v \<Rightarrow> if c < length v then vector_at v c else Inr None)"

section \<open>RingBuffer\<close>

text \<open>
  Modelled from the spec: \<^verbatim>\<open>base/RingBuffer.h\<close> is included by the sources but is not
  among them. The spec gives a fixed-capacity FIFO with the operations
  \<^verbatim>\<open>getWriteSpace\<close>, \<^verbatim>\<open>write(src,n)\<close>, \<^verbatim>\<open>getReadSpace\<close>, \<^verbatim>\<open>peek(dst,n)\<close>,
  \<^verbatim>\<open>read(dst,n)\<close> and \<^verbatim>\<open>skip(n)\<close> over a storage of capacity \<open>C\<close>, where
  \<open>readSpace = W - R\<close> and \<open>writeSpace = C - 1 - (W - R)\<close>, one slot being reserved.
  The buffer is represented by its storage capacity and by the \<open>W - R\<close> frames written
  and not yet read, oldest first. \<^verbatim>\<open>RingBuffer(n)\<close> is a buffer with room for \<open>n\<close>
  frames (a storage of \<open>n + 1\<close> slots): the stretcher asserts that it can peek
  \<^verbatim>\<open>m_wlen\<close> frames out of \<^verbatim>\<open>m_inbuf(m_wlen)\<close>. A transfer of more frames than there
  is space or data for moves only the frames there are.
  A source pointer is the function from an offset to the frame stored there.
\<close>

record 'a RingBuffer =
  rb_storage :: nat
  rb_data :: "'a list"

definition RingBuffer_new :: "nat \<Rightarrow> 'a RingBuffer" where
  "RingBuffer_new n = \<lparr>rb_storage = n + 1, rb_data = []\<rparr>"

definition getReadSpace :: "'a RingBuffer \<Rightarrow> nat" where
  "getReadSpace rb = length (rb_data rb)"

definition getWriteSpace :: "'a RingBuffer \<Rightarrow> nat" where
  "getWriteSpace rb = rb_storage rb - 1 - length (rb_data rb)"

definition rb_write :: "'a RingBuffer \<Rightarrow> (nat \<Rightarrow> 'a) \<Rightarrow> nat \<Rightarrow> 'a RingBuffer" where
  "rb_write rb src n = rb\<lparr>rb_data := rb_data rb @ map src [0..<min n (getWriteSpace rb)]\<rparr>"

definition rb_peek :: "'a RingBuffer \<Rightarrow> nat \<Rightarrow> 'a list" where
  "rb_peek rb n = take n (rb_data rb)"

definition rb_skip :: "'a RingBuffer \<Rightarrow> nat \<Rightarrow> 'a RingBuffer" where
  "rb_skip rb n = rb\<lparr>rb_data := drop n (rb_data rb)\<rparr>"

definition rb_read :: "'a RingBuffer \<Rightarrow> nat \<Rightarrow> 'a list \<times> 'a RingBuffer" where
  "rb_read rb n = (take n (rb_data rb), rb\<lparr>rb_data := drop n (rb_data rb)\<rparr>)"

section \<open>IntegerTimeStretcher\<close>

text \<open>
  Samples are \<^verbatim>\<open>double\<close>s in the source. The model leaves the sample type \<open>'a\<close> open
  and takes the operations on samples, and the routines of the absent
  \<^verbatim>\<open>Window\<close> class and of the FFTW library, as the fields of \<open>fp_ops\<close>: no law of
  real arithmetic is assumed of them.
  \<^item> \<open>fzero\<close> is \<^verbatim>\<open>0.0\<close>, \<open>fadd\<close> is \<^verbatim>\<open>+\<close>, \<open>fdiv_size\<close> and \<open>fdiv_int\<close> divide a
    sample by a \<^verbatim>\<open>size_t\<close> and by an \<^verbatim>\<open>int\<close>;
  \<^item> \<open>window_cut t n i x\<close> is what \<^verbatim>\<open>Window<double>(t, n).cut\<close> stores at index \<open>i\<close>
    for the sample \<open>x\<close> found there;
  \<^item> \<open>fft_forward time i\<close> and \<open>fft_inverse freq i\<close> are entry \<open>i\<close> of what the
    forward and the inverse (complex to real) plan compute;
  \<^item> \<open>scale_phase ratio bin\<close> rebuilds a bin from its magnitude and its phase
    multiplied by the ratio (\<^verbatim>\<open>sqrt\<close>, \<^verbatim>\<open>atan2\<close>, \<^verbatim>\<open>cos\<close>, \<^verbatim>\<open>sin\<close>).

  Sizes are \<^verbatim>\<open>size_t\<close> (64 bits) in the source and \<open>nat\<close> here. The products of
  sizes that the source computes wrap around, which \<open>size_mul\<close> writes out; so does
  the one unguarded difference, in \<open>size_sub\<close>. Sums and the other differences stay
  within the sizes they are guarded by.
\<close>

definition size_mul :: "nat \<Rightarrow> nat \<Rightarrow> nat" where
  "size_mul a b = (a * b) mod 2 ^ 64"

definition size_sub :: "nat \<Rightarrow> nat \<Rightarrow> nat" where
  "size_sub a b = (if b \<le> a then a - b else a + 2 ^ 64 - b)"

record ('a, 'w) fp_ops =
  fzero :: 'a
  fadd :: "'a \<Rightarrow> 'a \<Rightarrow> 'a"
  fdiv_size :: "'a \<Rightarrow> nat \<Rightarrow> 'a"
  fdiv_int :: "'a \<Rightarrow> int \<Rightarrow> 'a"
  window_cut :: "'w \<Rightarrow> nat \<Rightarrow> nat \<Rightarrow> 'a \<Rightarrow> 'a"
  fft_forward :: "('a \<times> 'a) list \<Rightarrow> nat \<Rightarrow> 'a \<times> 'a"
  fft_inverse :: "('a \<times> 'a) list \<Rightarrow> nat \<Rightarrow> 'a"
  scale_phase :: "nat \<Rightarrow> 'a \<times> 'a \<Rightarrow> 'a \<times> 'a"

text \<open>
  The fields of the class that outlive a call. The scratch arrays \<^verbatim>\<open>m_time\<close>,
  \<^verbatim>\<open>m_freq\<close> and \<^verbatim>\<open>m_dbuf\<close> are written in full before they are read in every
  iteration, so they are values local to \<open>processBlock\<close> here. \<open>m_window\<close> holds
  the arguments the window was built with.
\<close>

record ('a, 'w) IntegerTimeStretcher =
  m_ratio :: nat
  m_n1 :: nat
  m_n2 :: nat
  m_wlen :: nat
  m_inbuf :: "'a RingBuffer"
  m_outbuf :: "'a RingBuffer"
  m_window :: "'w \<times> nat"
  m_mashbuf :: "'a list"

text \<open>The constructor (the initialisers run in the order they are written).\<close>

definition IntegerTimeStretcher_new ::
  "('a, 'w) fp_ops \<Rightarrow> nat \<Rightarrow> nat \<Rightarrow> nat \<Rightarrow> nat \<Rightarrow> 'w \<Rightarrow> ('a, 'w) IntegerTimeStretcher" where
  "IntegerTimeStretcher_new ops ratio maxProcessInputBlockSize inputIncrement windowSize windowType =
     (let n1 = inputIncrement;
          n2 = size_mul n1 ratio;
          wlen = max windowSize (size_mul n2 2)
      in \<lparr>m_ratio = ratio, m_n1 = n1, m_n2 = n2, m_wlen = wlen,
          m_inbuf = RingBuffer_new wlen,
          m_outbuf = RingBuffer_new (size_mul maxProcessInputBlockSize ratio),
          m_window = (windowType, wlen),
          m_mashbuf = replicate wlen (fzero ops)\<rparr>)"

text \<open>
  Modelled from the spec: \<^verbatim>\<open>IntegerTimeStretcher.h\<close>, which defines the inline accessors,
  is not among the sources. \<open>getWindowSize\<close> is the window length \<open>W\<close>,
  \<open>getInputIncrement\<close> the analysis hop \<open>n1\<close> (the constructor's
  \<^verbatim>\<open>inputIncrement\<close>), \<open>getRatio\<close> the ratio \<open>R\<close>.
\<close>

definition getWindowSize :: "('a, 'w) IntegerTimeStretcher \<Rightarrow> nat" where
  "getWindowSize s = m_wlen s"

definition getInputIncrement :: "('a, 'w) IntegerTimeStretcher \<Rightarrow> nat" where
  "getInputIncrement s = m_n1 s"

definition getRatio :: "('a, 'w) IntegerTimeStretcher \<Rightarrow> nat" where
  "getRatio s = m_ratio s"

definition getProcessingLatency :: "('a, 'w) IntegerTimeStretcher \<Rightarrow> nat" where
  "getProcessingLatency s = size_sub (getWindowSize s) (getInputIncrement s)"

subsection \<open>processBlock\<close>

datatype stretch_error = AssertionFailed | DivisionByZero | OutOfBounds

text \<open>\<^verbatim>\<open>m_window->cut(buf)\<close>: the window runs over its own size.\<close>

definition cut :: "('a, 'w) fp_ops \<Rightarrow> 'w \<times> nat \<Rightarrow> 'a list \<Rightarrow> 'a list" where
  "cut ops w buf = map (\<lambda>i. window_cut ops (fst w) (snd w) i (buf ! i)) [0..<snd w]"

text \<open>The first swap loop exchanges \<open>buf[i]\<close> and \<open>buf[i + wlen/2]\<close> for \<open>i < wlen/2\<close>.\<close>

definition swap_halves :: "nat \<Rightarrow> 'a list \<Rightarrow> 'a list" where
  "swap_halves wlen buf =
     (let h = wlen div 2 in take h (drop h buf) @ take h buf @ drop (2 * h) buf)"

text \<open>The second swap loop also divides the entries it exchanges by \<open>wlen\<close>.\<close>

definition swap_halves_div :: "('a, 'w) fp_ops \<Rightarrow> nat \<Rightarrow> 'a list \<Rightarrow> 'a list" where
  "swap_halves_div ops wlen buf =
     (let h = wlen div 2
      in map (\<lambda>x. fdiv_size ops x wlen) (take h (drop h buf)) @
         map (\<lambda>x. fdiv_size ops x wlen) (take h buf) @ drop (2 * h) buf)"

text \<open>
  The block after the second \<^verbatim>\<open>m_window->cut(buf)\<close>: analysis window, swap, forward
  FFT, phase scaling, inverse FFT, swap with division by \<open>wlen\<close>, synthesis window.
\<close>

definition windowed_resynthesis ::
  "('a, 'w) fp_ops \<Rightarrow> ('a, 'w) IntegerTimeStretcher \<Rightarrow> 'a list \<Rightarrow> 'a list" where
  "windowed_resynthesis ops s buf =
     (let wlen = m_wlen s;
          b1 = cut ops (m_window s) buf;
          b2 = swap_halves wlen b1;
          time = map (\<lambda>i. (b2 ! i, fzero ops)) [0..<wlen];
          freq = map (fft_forward ops time) [0..<wlen];
          freq' = map (scale_phase ops (m_ratio s)) freq;
          b3 = map (fft_inverse ops freq') [0..<wlen];
          b4 = swap_halves_div ops wlen b3
      in cut ops (m_window s) b4)"

text \<open>\<^verbatim>\<open>int div = m_wlen / m_n2; if (div > 1) div /= 2;\<close> for a non-zero \<^verbatim>\<open>m_n2\<close>.\<close>

definition block_divisor :: "('a, 'w) IntegerTimeStretcher \<Rightarrow> int" where
  "block_divisor s = (let d = int (m_wlen s div m_n2 s) in if d > 1 then d div 2 else d)"

text \<open>
  \<open>processBlock ops s buf out\<close> is the new content of \<open>out\<close>. The integer division
  \<^verbatim>\<open>m_wlen / m_n2\<close> is undefined for \<^verbatim>\<open>m_n2 == 0\<close>: the model stops there with
  \<open>DivisionByZero\<close>.
\<close>

definition processBlock ::
  "('a, 'w) fp_ops \<Rightarrow> ('a, 'w) IntegerTimeStretcher \<Rightarrow> 'a list \<Rightarrow> 'a list \<Rightarrow>
   stretch_error + 'a list" where
  "processBlock ops s buf out =
     (let b5 = windowed_resynthesis ops s buf
      in if m_n2 s = 0 then Inl DivisionByZero
         else let d = block_divisor s;
                  b6 = map (\<lambda>i. fdiv_int ops (b5 ! i) d) [0..<m_wlen s]
              in Inr (map (\<lambda>i. fadd ops (out ! i) (b6 ! i)) [0..<m_wlen s]))"

subsection \<open>process\<close>

text \<open>The condition of the inner \<^verbatim>\<open>while\<close> loop.\<close>

definition can_process :: "('a, 'w) IntegerTimeStretcher \<Rightarrow> bool" where
  "can_process s =
     (m_wlen s \<le> getReadSpace (m_inbuf s) \<and> m_n2 s \<le> getWriteSpace (m_outbuf s))"

text \<open>The two \<^verbatim>\<open>for\<close> loops that move \<^verbatim>\<open>m_mashbuf\<close> left and clear its tail.\<close>

definition shift_mashbuf ::
  "('a, 'w) fp_ops \<Rightarrow> ('a, 'w) IntegerTimeStretcher \<Rightarrow> 'a list \<Rightarrow> 'a list" where
  "shift_mashbuf ops s mash =
     map (\<lambda>i. if i < m_wlen s - m_n2 s then mash ! (i + m_n2 s) else fzero ops) [0..<m_wlen s]"

text \<open>
  The body of the inner loop. \<^verbatim>\<open>m_mashbuf\<close> has \<^verbatim>\<open>m_wlen\<close> entries: with
  \<^verbatim>\<open>m_n2 > m_wlen\<close> the write of its first \<^verbatim>\<open>m_n2\<close> entries and the loop up to
  \<^verbatim>\<open>m_wlen - m_n2\<close>, which wraps around, leave the array, and the model stops with
  \<open>OutOfBounds\<close>.
\<close>

definition process_iteration ::
  "('a, 'w) fp_ops \<Rightarrow> ('a, 'w) IntegerTimeStretcher \<Rightarrow>
   stretch_error + ('a, 'w) IntegerTimeStretcher" where
  "process_iteration ops s =
     (let dbuf = rb_peek (m_inbuf s) (m_wlen s);
          got = length dbuf
      in if got \<noteq> m_wlen s then Inl AssertionFailed
         else case processBlock ops s dbuf (m_mashbuf s) of
                Inl e \<Rightarrow> Inl e
              | Inr mash \<Rightarrow>
                  if m_wlen s < m_n2 s then Inl OutOfBounds
                  else Inr (s\<lparr>m_inbuf := rb_skip (m_inbuf s) (m_n1 s),
                              m_outbuf := rb_write (m_outbuf s) (\<lambda>i. mash ! i) (m_n2 s),
                              m_mashbuf := shift_mashbuf ops s mash\<rparr>))"

function inner_loop ::
  "('a, 'w) fp_ops \<Rightarrow> ('a, 'w) IntegerTimeStretcher \<Rightarrow>
   stretch_error + ('a, 'w) IntegerTimeStretcher" where
  "inner_loop ops s =
     (if can_process s
      then (case process_iteration ops s of
              Inl e \<Rightarrow> Inl e
            | Inr s' \<Rightarrow> inner_loop ops s')
      else Inr s)"
  by pat_completeness auto
termination
proof (relation "measure (\<lambda>(ops, s). getWriteSpace (m_outbuf s))")
  show "wf (measure (\<lambda>(ops :: ('a, 'w) fp_ops, s :: ('a, 'w) IntegerTimeStretcher).
    getWriteSpace (m_outbuf s)))"
    by simp
next
  fix ops :: "('a, 'w) fp_ops" and s s' :: "('a, 'w) IntegerTimeStretcher"
  assume can: "can_process s" and it: "process_iteration ops s = Inr s'"
  from it have n2: "m_n2 s \<noteq> 0"
    by (auto simp: process_iteration_def processBlock_def Let_def split: if_splits)
  from it obtain mash where
    "m_outbuf s' = rb_write (m_outbuf s) (\<lambda>i. mash ! i) (m_n2 s)"
    by (auto simp: process_iteration_def Let_def split: if_splits sum.splits)
  with can n2 have "getWriteSpace (m_outbuf s') < getWriteSpace (m_outbuf s)"
    by (auto simp: can_process_def rb_write_def getWriteSpace_def min_def)
  then show "((ops, s'), (ops, s)) \<in> measure (\<lambda>(ops, s). getWriteSpace (m_outbuf s))"
    by simp
qed

text \<open>
  The outer loop, from a given number of consumed frames; \<open>input\<close> is the caller's
  array. The result is the state and the number of frames consumed at the exit.
\<close>

function process_loop ::
  "('a, 'w) fp_ops \<Rightarrow> ('a, 'w) IntegerTimeStretcher \<Rightarrow> (nat \<Rightarrow> 'a) \<Rightarrow> nat \<Rightarrow> nat \<Rightarrow>
   stretch_error + ('a, 'w) IntegerTimeStretcher \<times> nat" where
  "process_loop ops s input samples consumed =
     (if consumed < samples
      then (let writable = min (getWriteSpace (m_inbuf s)) (samples - consumed)
            in if writable = 0 then Inr (s, consumed)
               else (case inner_loop ops
                            (s\<lparr>m_inbuf := rb_write (m_inbuf s) (\<lambda>i. input (consumed + i)) writable\<rparr>) of
                       Inl e \<Rightarrow> Inl e
                     | Inr s' \<Rightarrow> process_loop ops s' input samples (consumed + writable)))
      else Inr (s, consumed))"
  by pat_completeness auto
termination
  by (relation "measure (\<lambda>(ops, s, input, samples, consumed). samples - consumed)") auto

text \<open>
  The end of \<^verbatim>\<open>process\<close>: the frames stored into \<^verbatim>\<open>output\<close>, from index 0 on, and the
  state left behind.
\<close>

definition drain_output ::
  "('a, 'w) fp_ops \<Rightarrow> ('a, 'w) IntegerTimeStretcher \<Rightarrow> nat \<Rightarrow>
   ('a, 'w) IntegerTimeStretcher \<times> 'a list" where
  "drain_output ops s samples =
     (if getReadSpace (m_outbuf s) < size_mul samples (m_ratio s)
      then (let fill = size_mul samples (m_ratio s) - getReadSpace (m_outbuf s);
                (frames, ob) = rb_read (m_outbuf s) (getReadSpace (m_outbuf s))
            in (s\<lparr>m_outbuf := ob\<rparr>, replicate fill (fzero ops) @ frames))
      else (let (frames, ob) = rb_read (m_outbuf s) (size_mul samples (m_ratio s))
            in (s\<lparr>m_outbuf := ob\<rparr>, frames)))"

definition process ::
  "('a, 'w) fp_ops \<Rightarrow> ('a, 'w) IntegerTimeStretcher \<Rightarrow> (nat \<Rightarrow> 'a) \<Rightarrow> nat \<Rightarrow>
   stretch_error + ('a, 'w) IntegerTimeStretcher \<times> 'a list" where
  "process ops s input samples =
     (case process_loop ops s input samples 0 of
        Inl e \<Rightarrow> Inl e
      | Inr (s1, consumed) \<Rightarrow> Inr (drain_output ops s1 samples))"

text \<open>
  What the constructor establishes when its products do not wrap around, and every
  iteration keeps: the synthesis hop is the product of the analysis hop and the ratio,
  the window holds two synthesis hops, and \<^verbatim>\<open>m_mashbuf\<close> has one entry per window
  position.
\<close>

definition well_formed :: "('a, 'w) IntegerTimeStretcher \<Rightarrow> bool" where
  "well_formed s =
     (m_n2 s = m_n1 s * m_ratio s \<and> 2 * m_n2 s \<le> m_wlen s \<and>
      length (m_mashbuf s) = m_wlen s \<and> snd (m_window s) = m_wlen s)"

section \<open>Worked instances\<close>

text \<open>
  Concrete instances on which the theorems below are evaluated: integer samples, a
  window that leaves every sample as it is, and transforms that return their input.
  \<open>example_stretcher\<close> has ratio 2, hop 1 and window 4, \<open>example_filled\<close> is the same
  stretcher after four frames have been written to its input buffer,
  \<open>example_small\<close> has an output buffer of two frames only,
  \<open>example_zero_hop\<close> is built with an input increment of 0 and
  \<open>example_zero_filled\<close> is that stretcher after four frames have been written to its
  input buffer. \<open>example_wrapped\<close> and \<open>example_huge\<close> are built with the ratio
  \<open>2 ^ 63\<close>, for which the products of the constructor wrap around, and
  \<open>example_wrapped_filled\<close> has four frames in its input buffer.
  \<open>example_wide\<close> has the ratio \<open>2 ^ 32\<close>, so that \<open>2 ^ 32\<close> samples times the
  ratio wrap around. \<open>example_tight\<close> has ratio 1, hop 2, window 4 and an output
  buffer of three frames; \<open>example_tight_once\<close> and \<open>example_stuck\<close> are the states it
  is in after one and after two calls of \<open>process\<close> with three frames each.
\<close>

definition example_ops :: "(int, unit) fp_ops" where
  "example_ops =
     \<lparr>fzero = 0, fadd = (+), fdiv_size = (\<lambda>x n. x div int n), fdiv_int = (\<lambda>x d. x div d),
      window_cut = (\<lambda>t n i x. x), fft_forward = (\<lambda>time i. time ! i),
      fft_inverse = (\<lambda>freq i. fst (freq ! i)), scale_phase = (\<lambda>r bin. bin)\<rparr>"

definition example_input :: "nat \<Rightarrow> int" where
  "example_input i = 8 * (int i + 1)"

definition example_stretcher :: "(int, unit) IntegerTimeStretcher" where
  "example_stretcher = IntegerTimeStretcher_new example_ops 2 4 1 4 ()"

definition example_filled :: "(int, unit) IntegerTimeStretcher" where
  "example_filled =
     example_stretcher\<lparr>m_inbuf := rb_write (m_inbuf example_stretcher) example_input 4\<rparr>"

definition example_small :: "(int, unit) IntegerTimeStretcher" where
  "example_small = IntegerTimeStretcher_new example_ops 2 1 1 4 ()"

definition example_zero_hop :: "(int, unit) IntegerTimeStretcher" where
  "example_zero_hop = IntegerTimeStretcher_new example_ops 1 4 0 4 ()"

definition example_zero_filled :: "(int, unit) IntegerTimeStretcher" where
  "example_zero_filled =
     example_zero_hop\<lparr>m_inbuf := rb_write (m_inbuf example_zero_hop) example_input 4\<rparr>"

definition example_wrapped :: "(int, unit) IntegerTimeStretcher" where
  "example_wrapped = IntegerTimeStretcher_new example_ops (2 ^ 63) 4 2 4 ()"


definition example_wrapped_filled :: "(int, unit) IntegerTimeStretcher" where
  "example_wrapped_filled =
     example_wrapped\<lparr>m_inbuf := rb_write (m_inbuf example_wrapped) example_input 4\<rparr>"

definition example_wide :: "(int, unit) IntegerTimeStretcher" where
  "example_wide = IntegerTimeStretcher_new example_ops (2 ^ 32) (2 ^ 32) 1 4 ()"

definition example_tight :: "(int, unit) IntegerTimeStretcher" where
  "example_tight = IntegerTimeStretcher_new example_ops 1 3 2 4 ()"

definition example_tight_once :: "(int, unit) IntegerTimeStretcher" where
  "example_tight_once =
     \<lparr>m_ratio = 1, m_n1 = 2, m_n2 = 2, m_wlen = 4,
      m_inbuf = \<lparr>rb_storage = 5, rb_data = [8, 16, 24]\<rparr>,
      m_outbuf = \<lparr>rb_storage = 4, rb_data = []\<rparr>,
      m_window = ((), 4), m_mashbuf = [0, 0, 0, 0]\<rparr>"

definition example_stuck :: "(int, unit) IntegerTimeStretcher" where
  "example_stuck =
     \<lparr>m_ratio = 1, m_n1 = 2, m_n2 = 2, m_wlen = 4,
      m_inbuf = \<lparr>rb_storage = 5, rb_data = [24, 8, 16, 24]\<rparr>,
      m_outbuf = \<lparr>rb_storage = 4, rb_data = []\<rparr>,
      m_window = ((), 4), m_mashbuf = [6, 2, 0, 0]\<rparr>"

declare inner_loop.simps [simp del] process_loop.simps [simp del]

section \<open>Properties of the note-off set\<close>

lemma set_set_insert: "set (set_insert cmp x ys) \<subseteq> insert x (set ys)"
  by (induction ys) auto

lemma sorted_wrt_set_insert:
  "transp cmp \<Longrightarrow> sorted_wrt cmp ys \<Longrightarrow> sorted_wrt cmp (set_insert cmp x ys)"
proof (induction ys)
  case Nil
  then show ?case by simp
next
  case (Cons y ys)
  have sub: "set (set_insert cmp x ys) \<subseteq> insert x (set ys)"
    by (rule set_set_insert)
  show ?case
  proof (cases "cmp x y")
    case True
    with Cons.prems show ?thesis
      by (auto dest: transpD)
  next
    case False
    show ?thesis
    proof (cases "cmp y x")
      case True
      with False Cons sub show ?thesis
        by auto
    next
      case nlt: False
      with False Cons.prems show ?thesis by simp
    qed
  qed
qed

lemma set_insert_equivalent:
  "transp cmp \<Longrightarrow> sorted_wrt cmp ys \<Longrightarrow> a \<in> set ys \<Longrightarrow> \<not> cmp a b \<Longrightarrow> \<not> cmp b a \<Longrightarrow>
   set_insert cmp b ys = ys"
proof (induction ys)
  case Nil
  then show ?case by simp
next
  case (Cons y ys)
  show ?case
  proof (cases "a = y")
    case True
    with Cons.prems show ?thesis by simp
  next
    case False
    with Cons.prems have mem: "a \<in> set ys" and lt: "cmp y a"
      by auto
    from Cons.prems have "sorted_wrt cmp ys" by simp
    with Cons.IH Cons.prems mem have eq: "set_insert cmp b ys = ys" by simp
    have "\<not> cmp b y"
      using lt Cons.prems(1,5) by (auto dest: transpD)
    with eq show ?thesis by simp
  qed
qed

lemma transp_Comparator: "transp Comparator"
  by (rule transpI) (simp add: Comparator_def)

lemma Comparator_frames: "sorted_wrt Comparator s = sorted_wrt (<) (map frame s)"
proof -
  have "Comparator = (\<lambda>a b. frame a < frame b)"
    by (intro ext) (simp add: Comparator_def)
  then show ?thesis by (simp add: sorted_wrt_map)
qed

lemma NoteOffSet_of_snoc:
  "NoteOffSet_of (ns @ [n]) = NoteOffSet_insert n (NoteOffSet_of ns)"
  by (simp add: NoteOffSet_of_def)

lemma NoteOffSet_of_strict: "sorted_wrt Comparator (NoteOffSet_of ns)"
proof (induction ns rule: rev_induct)
  case Nil
  show ?case by (simp add: NoteOffSet_of_def)
next
  case (snoc n ns)
  then show ?case
    unfolding NoteOffSet_of_snoc NoteOffSet_insert_def
    by (rule sorted_wrt_set_insert [OF transp_Comparator])
qed

text \<open>
  C6. The comparator places \<open>a\<close> before \<open>b\<close> exactly when \<open>a\<close>'s frame is
  smaller, and iterating the set reached by any sequence of insertions yields the
  note-offs in non-decreasing frame order.
\<close>

theorem NoteOffSet_ordered_by_frame:
  "Comparator a b = (frame a < frame b) \<and> sorted (map frame (NoteOffSet_of ns))"
proof -
  have "sorted_wrt (<) (map frame (NoteOffSet_of ns))"
    using NoteOffSet_of_strict [of ns] by (simp only: Comparator_frames)
  then have "sorted (map frame (NoteOffSet_of ns))"
    by (simp only: strict_sorted_iff)
  then show ?thesis by (simp add: Comparator_def)
qed

text \<open>
  C9. Two note-offs with the same frame are equivalent for the set, whatever their
  pitch: the set reached by any sequence of insertions holds at most one note-off per
  frame, and inserting a note-off whose frame is already present leaves the set as
  it is.
\<close>

theorem NoteOffSet_one_per_frame:
  "distinct (map frame (NoteOffSet_of ns)) \<and>
   (\<forall>a b. a \<in> set (NoteOffSet_of ns) \<and> frame b = frame a \<longrightarrow>
      NoteOffSet_insert b (NoteOffSet_of ns) = NoteOffSet_of ns)"
proof -
  have st: "sorted_wrt Comparator (NoteOffSet_of ns)"
    by (rule NoteOffSet_of_strict)
  then have "sorted_wrt (<) (map frame (NoteOffSet_of ns))"
    by (simp only: Comparator_frames)
  then have d: "distinct (map frame (NoteOffSet_of ns))"
    by (simp only: strict_sorted_iff)
  have "NoteOffSet_insert b (NoteOffSet_of ns) = NoteOffSet_of ns"
    if "a \<in> set (NoteOffSet_of ns)" and "frame b = frame a" for a b
    unfolding NoteOffSet_insert_def
    using transp_Comparator st that(1)
  proof (rule set_insert_equivalent)
    show "\<not> Comparator a b" "\<not> Comparator b a"
      using that(2) by (simp_all add: Comparator_def)
  qed
  with d show ?thesis by blast
qed

theorem NoteOffSet_one_per_frame_witness:
  "NoteOffSet_of [\<lparr>pitch = 60, frame = 100\<rparr>, \<lparr>pitch = 64, frame = 100\<rparr>]
     = [\<lparr>pitch = 60, frame = 100\<rparr>] \<and>
   NoteOffSet_insert \<lparr>pitch = 67, frame = 100\<rparr>
     (NoteOffSet_of [\<lparr>pitch = 60, frame = 100\<rparr>, \<lparr>pitch = 64, frame = 100\<rparr>])
     = NoteOffSet_of [\<lparr>pitch = 60, frame = 100\<rparr>, \<lparr>pitch = 64, frame = 100\<rparr>]"
proof -
  have e: "NoteOffSet_of [\<lparr>pitch = 60, frame = 100\<rparr>, \<lparr>pitch = 64, frame = 100\<rparr>]
     = [\<lparr>pitch = 60, frame = 100\<rparr>]"
    by (simp add: NoteOffSet_of_def NoteOffSet_insert_def Comparator_def)
  have m: "\<lparr>pitch = 60, frame = 100\<rparr> \<in>
      set (NoteOffSet_of [\<lparr>pitch = 60, frame = 100\<rparr>, \<lparr>pitch = 64, frame = 100\<rparr>])"
    by (simp add: e)
  from NoteOffSet_one_per_frame
    [of "[\<lparr>pitch = 60, frame = 100\<rparr>, \<lparr>pitch = 64, frame = 100\<rparr>]"] m
  have "NoteOffSet_insert \<lparr>pitch = 67, frame = 100\<rparr>
     (NoteOffSet_of [\<lparr>pitch = 60, frame = 100\<rparr>, \<lparr>pitch = 64, frame = 100\<rparr>])
     = NoteOffSet_of [\<lparr>pitch = 60, frame = 100\<rparr>, \<lparr>pitch = 64, frame = 100\<rparr>]"
    by (metis NoteOff.select_convs(2))
  with e show ?thesis by simp
qed

section \<open>Properties of the ring buffer accessors\<close>

text \<open>
  C8. Both accessors are total: no channel index makes them index the vector out of
  range, and they return the null pointer whenever the vector pointer is null or the
  index is not below the vector's size.
\<close>

theorem ring_buffer_accessors_total:
  "getWriteRingBuffer src c \<noteq> Inl e \<and> getReadRingBuffer src c \<noteq> Inl e \<and>
   ((case m_writeBuffers src of None \<Rightarrow> True | Some v \<Rightarrow> length v \<le> c) \<longrightarrow>
      getWriteRingBuffer src c = Inr None) \<and>
   ((case m_readBuffers src of None \<Rightarrow> True | Some v \<Rightarrow> length v \<le> c) \<longrightarrow>
      getReadRingBuffer src c = Inr None)"
  by (auto simp: getWriteRingBuffer_def getReadRingBuffer_def vector_at_def Let_def
      split: option.splits)

theorem ring_buffer_accessors_total_witness:
  "getWriteRingBuffer
     \<lparr>m_readBuffers = Some [Some (7::nat)], m_writeBuffers = None,
      m_playing = False, m_exiting = False\<rparr> 0 = Inr None \<and>
   getReadRingBuffer
     \<lparr>m_readBuffers = Some [Some (7::nat)], m_writeBuffers = None,
      m_playing = False, m_exiting = False\<rparr> 1 = Inr None"
  using ring_buffer_accessors_total
    [of "\<lparr>m_readBuffers = Some [Some (7::nat)], m_writeBuffers = None,
      m_playing = False, m_exiting = False\<rparr>" 0 IndexOutOfRange]
    ring_buffer_accessors_total
    [of "\<lparr>m_readBuffers = Some [Some (7::nat)], m_writeBuffers = None,
      m_playing = False, m_exiting = False\<rparr>" 1 IndexOutOfRange]
  by simp

section \<open>Properties of the time stretcher\<close>

subsection \<open>processBlock and one iteration\<close>

lemma length_cut: "length (cut ops w buf) = snd w"
  by (simp add: cut_def)

lemma processBlock_zero: "m_n2 s = 0 \<Longrightarrow> processBlock ops s buf out = Inl DivisionByZero"
  by (simp add: processBlock_def Let_def)

lemma processBlock_Inl: "processBlock ops s buf out = Inl e \<Longrightarrow> e = DivisionByZero \<and> m_n2 s = 0"
  by (auto simp: processBlock_def Let_def split: if_splits)

lemma processBlock_Inr:
  "m_n2 s \<noteq> 0 \<Longrightarrow>
   processBlock ops s buf out =
     Inr (map (\<lambda>i. fadd ops (out ! i)
            (fdiv_int ops (windowed_resynthesis ops s buf ! i) (block_divisor s))) [0..<m_wlen s])"
  by (simp add: processBlock_def Let_def)

lemma length_processBlock: "processBlock ops s buf out = Inr mash \<Longrightarrow> length mash = m_wlen s"
  by (auto simp: processBlock_def Let_def split: if_splits)

lemma shift_mashbuf_eq:
  assumes "m_n2 s \<le> m_wlen s" and "length mash = m_wlen s"
  shows "shift_mashbuf ops s mash = drop (m_n2 s) mash @ replicate (m_n2 s) (fzero ops)"
proof (rule nth_equalityI)
  show "length (shift_mashbuf ops s mash) =
        length (drop (m_n2 s) mash @ replicate (m_n2 s) (fzero ops))"
    using assms by (simp add: shift_mashbuf_def)
next
  fix i assume "i < length (shift_mashbuf ops s mash)"
  then have i: "i < m_wlen s" by (simp add: shift_mashbuf_def)
  show "shift_mashbuf ops s mash ! i =
        (drop (m_n2 s) mash @ replicate (m_n2 s) (fzero ops)) ! i"
  proof (cases "i < m_wlen s - m_n2 s")
    case True
    with i assms show ?thesis
      by (simp add: shift_mashbuf_def nth_append add.commute)
  next
    case False
    with i assms show ?thesis
      by (simp add: shift_mashbuf_def nth_append)
  qed
qed

lemma process_iteration_Inr:
  assumes "can_process s" and "m_n2 s \<noteq> 0" and "m_n2 s \<le> m_wlen s"
  shows "\<exists>mash. processBlock ops s (rb_peek (m_inbuf s) (m_wlen s)) (m_mashbuf s) = Inr mash \<and>
     process_iteration ops s =
       Inr (s\<lparr>m_inbuf := rb_skip (m_inbuf s) (m_n1 s),
              m_outbuf := rb_write (m_outbuf s) (\<lambda>i. mash ! i) (m_n2 s),
              m_mashbuf := shift_mashbuf ops s mash\<rparr>)"
proof -
  from assms(1) have "length (rb_peek (m_inbuf s) (m_wlen s)) = m_wlen s"
    by (simp add: can_process_def rb_peek_def getReadSpace_def)
  moreover from assms(2) obtain mash where
    "processBlock ops s (rb_peek (m_inbuf s) (m_wlen s)) (m_mashbuf s) = Inr mash"
    by (auto simp: processBlock_Inr)
  ultimately show ?thesis
    using assms(3) by (simp add: process_iteration_def Let_def)
qed

lemma process_iteration_stops:
  "can_process s \<Longrightarrow> m_n2 s = 0 \<Longrightarrow> process_iteration ops s = Inl DivisionByZero"
  by (simp add: process_iteration_def Let_def can_process_def rb_peek_def getReadSpace_def
      processBlock_zero)

lemma process_iteration_fields:
  assumes "process_iteration ops s = Inr s'"
  shows "m_ratio s' = m_ratio s \<and> m_n1 s' = m_n1 s \<and> m_n2 s' = m_n2 s \<and>
         m_wlen s' = m_wlen s \<and> m_window s' = m_window s \<and>
         length (m_mashbuf s') = m_wlen s \<and> rb_storage (m_inbuf s') = rb_storage (m_inbuf s) \<and>
         rb_storage (m_outbuf s') = rb_storage (m_outbuf s)"
  using assms
  by (auto simp: process_iteration_def Let_def shift_mashbuf_def rb_skip_def rb_write_def
      split: if_splits sum.splits)

lemma inner_loop_fields:
  "inner_loop ops s = Inr s' \<Longrightarrow>
     m_ratio s' = m_ratio s \<and> m_n1 s' = m_n1 s \<and> m_n2 s' = m_n2 s \<and>
     m_wlen s' = m_wlen s \<and> m_window s' = m_window s \<and>
     (length (m_mashbuf s) = m_wlen s \<longrightarrow> length (m_mashbuf s') = m_wlen s) \<and>
     rb_storage (m_inbuf s') = rb_storage (m_inbuf s) \<and>
     rb_storage (m_outbuf s') = rb_storage (m_outbuf s)"
proof (induction ops s rule: inner_loop.induct)
  case (1 ops s)
  show ?case
  proof (cases "can_process s")
    case False
    with "1.prems" show ?thesis by (simp add: inner_loop.simps [of ops s])
  next
    case True
    with "1.prems" obtain s1 where it: "process_iteration ops s = Inr s1"
      and rest: "inner_loop ops s1 = Inr s'"
      by (auto simp: inner_loop.simps [of ops s] split: sum.splits)
    from "1.IH" [OF True it rest] process_iteration_fields [OF it]
    show ?thesis by simp
  qed
qed

lemma inner_loop_returns:
  "m_n2 s \<noteq> 0 \<Longrightarrow> m_n2 s \<le> m_wlen s \<Longrightarrow> \<exists>s'. inner_loop ops s = Inr s'"
proof (induction ops s rule: inner_loop.induct)
  case (1 ops s)
  show ?case
  proof (cases "can_process s")
    case False
    then show ?thesis by (simp add: inner_loop.simps [of ops s])
  next
    case True
    from process_iteration_Inr [OF True "1.prems"] obtain s1 where
      it: "process_iteration ops s = Inr s1" by blast
    with process_iteration_fields [OF it] "1.prems"
    have "m_n2 s1 \<noteq> 0" and "m_n2 s1 \<le> m_wlen s1" by simp_all
    from "1.IH" [OF True it this] True it show ?thesis
      by (simp add: inner_loop.simps [of ops s])
  qed
qed

lemma inner_loop_exit: "inner_loop ops s = Inr s' \<Longrightarrow> \<not> can_process s'"
proof (induction ops s rule: inner_loop.induct)
  case (1 ops s)
  show ?case
  proof (cases "can_process s")
    case False
    with "1.prems" show ?thesis by (simp add: inner_loop.simps [of ops s])
  next
    case True
    with "1.prems" obtain s1 where it: "process_iteration ops s = Inr s1"
      and rest: "inner_loop ops s1 = Inr s'"
      by (auto simp: inner_loop.simps [of ops s] split: sum.splits)
    from "1.IH" [OF True it rest] show ?thesis .
  qed
qed

subsection \<open>The loops of process\<close>

lemma process_loop_returns:
  "m_n2 s \<noteq> 0 \<Longrightarrow> m_n2 s \<le> m_wlen s \<Longrightarrow>
   \<exists>s' c. process_loop ops s input samples consumed = Inr (s', c)"
proof (induction ops s input samples consumed rule: process_loop.induct)
  case (1 ops s input samples consumed)
  define writable where "writable = min (getWriteSpace (m_inbuf s)) (samples - consumed)"
  define s0 where
    "s0 = s\<lparr>m_inbuf := rb_write (m_inbuf s) (\<lambda>i. input (consumed + i)) writable\<rparr>"
  show ?case
  proof (cases "consumed < samples \<and> writable \<noteq> 0")
    case False
    then show ?thesis
      by (auto simp: process_loop.simps [of ops s input samples consumed] writable_def Let_def)
  next
    case True
    from "1.prems" have "m_n2 s0 \<noteq> 0" and "m_n2 s0 \<le> m_wlen s0" by (simp_all add: s0_def)
    from inner_loop_returns [OF this] obtain s1 where il: "inner_loop ops s0 = Inr s1"
      by blast
    from inner_loop_fields [OF il] "1.prems" have n2: "m_n2 s1 \<noteq> 0"
      and le: "m_n2 s1 \<le> m_wlen s1"
      by (simp_all add: s0_def)
    from True have c: "consumed < samples" and w: "writable \<noteq> 0" by simp_all
    from "1.IH" [OF c writable_def w il [unfolded s0_def] n2 le]
    obtain s' c' where "process_loop ops s1 input samples (consumed + writable) = Inr (s', c')"
      by blast
    with True il show ?thesis
      by (simp add: process_loop.simps [of ops s input samples consumed] Let_def
          writable_def [symmetric] s0_def [symmetric])
  qed
qed

lemma map_nth_upt: "n \<le> length xs \<Longrightarrow> map (\<lambda>i. xs ! i) [0..<n] = take n xs"
  by (rule nth_equalityI) simp_all

lemma process_loop_done:
  "\<not> consumed < samples \<Longrightarrow> process_loop ops s input samples consumed = Inr (s, consumed)"
  by (simp add: process_loop.simps [of ops s input samples consumed])

lemma process_loop_break:
  "consumed < samples \<Longrightarrow> getWriteSpace (m_inbuf s) = 0 \<Longrightarrow>
   process_loop ops s input samples consumed = Inr (s, consumed)"
  by (simp add: process_loop.simps [of ops s input samples consumed])

lemma process_loop_step:
  assumes "consumed < samples"
    and "w = min (getWriteSpace (m_inbuf s)) (samples - consumed)" and "w \<noteq> 0"
  shows "process_loop ops s input samples consumed =
     (case inner_loop ops (s\<lparr>m_inbuf := rb_write (m_inbuf s) (\<lambda>i. input (consumed + i)) w\<rparr>) of
        Inl e \<Rightarrow> Inl e
      | Inr s' \<Rightarrow> process_loop ops s' input samples (consumed + w))"
  unfolding process_loop.simps [of ops s input samples consumed] Let_def assms(2) [symmetric]
  using assms(1,3) by simp

lemma process_loop_result:
  "process_loop ops s input samples consumed = Inr (s', c') \<Longrightarrow>
     consumed \<le> c' \<and> (consumed \<le> samples \<longrightarrow> c' \<le> samples) \<and>
     (c' < samples \<longrightarrow> getWriteSpace (m_inbuf s') = 0) \<and>
     m_ratio s' = m_ratio s \<and> m_n1 s' = m_n1 s \<and> m_n2 s' = m_n2 s \<and>
     m_wlen s' = m_wlen s \<and> m_window s' = m_window s \<and>
     (length (m_mashbuf s) = m_wlen s \<longrightarrow> length (m_mashbuf s') = m_wlen s)"
proof (induction ops s input samples consumed rule: process_loop.induct)
  case (1 ops s input samples consumed)
  define writable where "writable = min (getWriteSpace (m_inbuf s)) (samples - consumed)"
  define s0 where
    "s0 = s\<lparr>m_inbuf := rb_write (m_inbuf s) (\<lambda>i. input (consumed + i)) writable\<rparr>"
  show ?case
  proof (cases "consumed < samples")
    case False
    with "1.prems" show ?thesis by (auto simp: process_loop_done)
  next
    case c: True
    show ?thesis
    proof (cases "getWriteSpace (m_inbuf s) = 0")
      case True
      with "1.prems" c show ?thesis by (auto simp: process_loop_break)
    next
      case False
      then have sp: "0 < getWriteSpace (m_inbuf s)" by simp
      with c have w: "writable \<noteq> 0" by (simp add: writable_def)
      from "1.prems" obtain s1 where il: "inner_loop ops s0 = Inr s1"
        and rest: "process_loop ops s1 input samples (consumed + writable) = Inr (s', c')"
        by (auto simp: process_loop_step [OF c writable_def w] s0_def split: sum.splits)
      have "consumed + writable \<le> samples" using c by (simp add: writable_def)
      with "1.IH" [OF c writable_def w il [unfolded s0_def] rest] inner_loop_fields [OF il]
      show ?thesis by (simp add: s0_def)
    qed
  qed
qed

lemma process_loop_input:
  "process_loop ops s input samples consumed = Inr (s', c') \<Longrightarrow>
   (\<And>i. consumed \<le> i \<Longrightarrow> i < c' \<Longrightarrow> input' i = input i) \<Longrightarrow>
   process_loop ops s input' samples consumed = Inr (s', c')"
proof (induction ops s input samples consumed rule: process_loop.induct)
  case (1 ops s input samples consumed)
  define writable where "writable = min (getWriteSpace (m_inbuf s)) (samples - consumed)"
  define s0 where
    "s0 = s\<lparr>m_inbuf := rb_write (m_inbuf s) (\<lambda>i. input (consumed + i)) writable\<rparr>"
  show ?case
  proof (cases "consumed < samples")
    case False
    with "1.prems"(1) show ?thesis by (auto simp: process_loop_done)
  next
    case c: True
    show ?thesis
    proof (cases "getWriteSpace (m_inbuf s) = 0")
      case True
      with "1.prems"(1) c show ?thesis by (auto simp: process_loop_break)
    next
      case False
      then have sp: "0 < getWriteSpace (m_inbuf s)" by simp
      with c have w: "writable \<noteq> 0" by (simp add: writable_def)
      from "1.prems"(1) obtain s1 where il: "inner_loop ops s0 = Inr s1"
        and rest: "process_loop ops s1 input samples (consumed + writable) = Inr (s', c')"
        by (auto simp: process_loop_step [OF c writable_def w] s0_def split: sum.splits)
      from process_loop_result [OF rest] have le: "consumed + writable \<le> c'" by simp
      have "map (\<lambda>i. input' (consumed + i)) [0..<min writable (getWriteSpace (m_inbuf s))]
          = map (\<lambda>i. input (consumed + i)) [0..<min writable (getWriteSpace (m_inbuf s))]"
        using le by (intro map_cong refl "1.prems"(2)) auto
      then have same: "s\<lparr>m_inbuf := rb_write (m_inbuf s) (\<lambda>i. input' (consumed + i)) writable\<rparr> = s0"
        by (simp add: s0_def rb_write_def)
      have "process_loop ops s1 input' samples (consumed + writable) = Inr (s', c')"
        using "1.IH" [OF c writable_def w il [unfolded s0_def] rest] "1.prems"(2) by simp
      with il same show ?thesis
        by (simp add: process_loop_step [OF c writable_def w])
    qed
  qed
qed

lemma drain_output_length:
  "length (snd (drain_output ops s samples)) = size_mul samples (m_ratio s)"
  by (simp add: drain_output_def rb_read_def getReadSpace_def Let_def)

lemma size_mul_small: "a * b < 2 ^ 64 \<Longrightarrow> size_mul a b = a * b"
  by (simp add: size_mul_def)

lemma constructor_fields:
  "m_ratio (IntegerTimeStretcher_new ops R B n1 ws wt) = R"
  "m_n1 (IntegerTimeStretcher_new ops R B n1 ws wt) = n1"
  "m_n2 (IntegerTimeStretcher_new ops R B n1 ws wt) = size_mul n1 R"
  "m_wlen (IntegerTimeStretcher_new ops R B n1 ws wt) = max ws (size_mul (size_mul n1 R) 2)"
  "m_inbuf (IntegerTimeStretcher_new ops R B n1 ws wt) =
     RingBuffer_new (max ws (size_mul (size_mul n1 R) 2))"
  "m_outbuf (IntegerTimeStretcher_new ops R B n1 ws wt) = RingBuffer_new (size_mul B R)"
  "m_window (IntegerTimeStretcher_new ops R B n1 ws wt) =
     (wt, max ws (size_mul (size_mul n1 R) 2))"
  "m_mashbuf (IntegerTimeStretcher_new ops R B n1 ws wt) =
     replicate (max ws (size_mul (size_mul n1 R) 2)) (fzero ops)"
  by (simp_all add: IntegerTimeStretcher_new_def Let_def)

lemma constructor_hops:
  assumes "2 * (R * n1) < 2 ^ 64"
  shows "size_mul n1 R = R * n1" and "size_mul (R * n1) 2 = 2 * (R * n1)"
proof -
  from assms have "n1 * R < 2 ^ 64" by (simp add: mult.commute)
  then show "size_mul n1 R = R * n1" by (simp add: size_mul_small mult.commute)
  from assms have "R * n1 * 2 < 2 ^ 64" by (simp add: mult.commute)
  then show "size_mul (R * n1) 2 = 2 * (R * n1)"
    by (simp add: size_mul_small)
qed

lemma well_formed_new:
  assumes "2 * (R * n1) < 2 ^ 64"
  shows "well_formed (IntegerTimeStretcher_new ops R B n1 ws wt)"
  unfolding well_formed_def constructor_fields constructor_hops [OF assms]
  by (simp add: mult.commute)

lemma well_formed_hops:
  assumes "well_formed s" and "m_n2 s \<noteq> 0"
  shows "m_n1 s \<le> m_n2 s" and "m_n2 s \<le> m_wlen s" and "1 \<le> m_ratio s" and "1 \<le> m_n1 s"
  using assms by (auto simp: well_formed_def)

lemma well_formed_process:
  assumes "well_formed s" and "process ops s input samples = Inr (s', out)"
  shows "well_formed s' \<and> m_ratio s' = m_ratio s \<and> m_n1 s' = m_n1 s \<and> m_n2 s' = m_n2 s"
proof -
  from assms(2) obtain s1 c where pl: "process_loop ops s input samples 0 = Inr (s1, c)"
    and d: "drain_output ops s1 samples = (s', out)"
    by (auto simp: process_def split: sum.splits prod.splits)
  from d have "m_ratio s' = m_ratio s1 \<and> m_n1 s' = m_n1 s1 \<and> m_n2 s' = m_n2 s1 \<and>
      m_wlen s' = m_wlen s1 \<and> m_window s' = m_window s1 \<and> m_mashbuf s' = m_mashbuf s1"
    by (auto simp: drain_output_def Let_def rb_read_def split: if_splits)
  with process_loop_result [OF pl] assms(1) show ?thesis
    by (simp add: well_formed_def)
qed

subsection \<open>Construction and latency\<close>

text \<open>
  C1. The processing latency is stated as \<open>W - n2\<close>, also by the comment in
  \<^verbatim>\<open>process\<close> (\<^verbatim>\<open>The processing latency is then m_wlen - m_n2\<close>), but
  \<open>getProcessingLatency\<close> subtracts the input increment \<open>n1\<close> from the window length,
  not the synthesis hop \<open>n2 = R * n1\<close>. For a stretcher built with ratio 2, input
  increment 64 and window size 2048 it returns 1984, where \<open>W - n2\<close> is 1920.
\<close>

theorem getProcessingLatency_at_ratio_2:
  "getProcessingLatency (IntegerTimeStretcher_new ops 2 1024 64 2048 wt) = 1984 \<and>
   m_wlen (IntegerTimeStretcher_new ops 2 1024 64 2048 wt) -
     m_n2 (IntegerTimeStretcher_new ops 2 1024 64 2048 wt) = 1920"
  by (simp add: getProcessingLatency_def getWindowSize_def getInputIncrement_def size_sub_def
      constructor_fields size_mul_def)


lemma example_ops_sel:
  "fzero example_ops = 0" "fadd example_ops a b = a + b"
  "fdiv_size example_ops a n = a div int n" "fdiv_int example_ops a d = a div d"
  "window_cut example_ops t n i a = a" "fft_forward example_ops time i = time ! i"
  "fft_inverse example_ops freq i = fst (freq ! i)" "scale_phase example_ops r bin = bin"
  by (simp_all add: example_ops_def)

lemma replicate_4: "replicate 4 x = [x, x, x, x]"
  by (simp add: numeral_eq_Suc)

lemma example_stretcher_eq:
  "example_stretcher =
     \<lparr>m_ratio = 2, m_n1 = 1, m_n2 = 2, m_wlen = 4,
      m_inbuf = \<lparr>rb_storage = 5, rb_data = []\<rparr>, m_outbuf = \<lparr>rb_storage = 9, rb_data = []\<rparr>,
      m_window = ((), 4), m_mashbuf = [0, 0, 0, 0]\<rparr>"
proof -
  have "size_mul 1 2 = 2" "size_mul 2 2 = 4" "size_mul 4 2 = 8"
    by (simp_all add: size_mul_def)
  then show ?thesis
    unfolding example_stretcher_def IntegerTimeStretcher_new_def Let_def
    by (simp add: RingBuffer_new_def example_ops_sel replicate_4)
qed



subsection \<open>Scaling in processBlock\<close>



lemma upt_4: "[0..<4] = [0, 1, 2, 3]"
  by (simp add: upt_rec)

lemma example_filled_eq:
  "example_filled =
     \<lparr>m_ratio = 2, m_n1 = 1, m_n2 = 2, m_wlen = 4,
      m_inbuf = \<lparr>rb_storage = 5, rb_data = [8, 16, 24, 32]\<rparr>,
      m_outbuf = \<lparr>rb_storage = 9, rb_data = []\<rparr>,
      m_window = ((), 4), m_mashbuf = [0, 0, 0, 0]\<rparr>"
  by (simp add: example_filled_def example_stretcher_eq rb_write_def getWriteSpace_def
      example_input_def upt_4)



subsection \<open>The processing iteration\<close>

text \<open>
  C3, amended. In a stretcher whose hops are the products the constructor means
  (\<open>n2 = n1 * R\<close> and \<open>2 * n2 \<le> W\<close>, neither wrapped around), with a non-zero
  synthesis hop, the inner loop of \<^verbatim>\<open>process\<close> runs an iteration exactly when the input ring holds at
  least \<open>W\<close> readable frames and the output ring has room for at least \<open>n2\<close> frames.
  Such an iteration removes exactly \<open>n1\<close> frames from the head of the input ring,
  appends exactly the first \<open>n2\<close> entries of \<^verbatim>\<open>m_mashbuf\<close> (as \<open>processBlock\<close> left
  it) to the output ring, moves \<^verbatim>\<open>m_mashbuf\<close> left by \<open>n2\<close> and sets its last \<open>n2\<close>
  entries to zero; then the loop goes on from the new state.
\<close>

theorem inner_loop_iteration:
  assumes "well_formed s" and "m_n2 s \<noteq> 0"
  shows "can_process s =
       (m_wlen s \<le> getReadSpace (m_inbuf s) \<and> m_n2 s \<le> getWriteSpace (m_outbuf s)) \<and>
     (\<not> can_process s \<longrightarrow> inner_loop ops s = Inr s) \<and>
     (can_process s \<longrightarrow>
        (\<exists>mash s'.
           processBlock ops s (rb_peek (m_inbuf s) (m_wlen s)) (m_mashbuf s) = Inr mash \<and>
           process_iteration ops s = Inr s' \<and> inner_loop ops s = inner_loop ops s' \<and>
           rb_data (m_inbuf s') = drop (m_n1 s) (rb_data (m_inbuf s)) \<and>
           getReadSpace (m_inbuf s') + m_n1 s = getReadSpace (m_inbuf s) \<and>
           rb_data (m_outbuf s') = rb_data (m_outbuf s) @ take (m_n2 s) mash \<and>
           getReadSpace (m_outbuf s') = getReadSpace (m_outbuf s) + m_n2 s \<and>
           length (m_mashbuf s') = m_wlen s \<and>
           take (m_wlen s - m_n2 s) (m_mashbuf s') = drop (m_n2 s) mash \<and>
           drop (m_wlen s - m_n2 s) (m_mashbuf s') = replicate (m_n2 s) (fzero ops)))"
proof (intro conjI impI)
  show "can_process s =
       (m_wlen s \<le> getReadSpace (m_inbuf s) \<and> m_n2 s \<le> getWriteSpace (m_outbuf s))"
    by (simp add: can_process_def)
next
  assume "\<not> can_process s"
  then show "inner_loop ops s = Inr s"
    by (simp add: inner_loop.simps [of ops s])
next
  assume can: "can_process s"
  note hops = well_formed_hops [OF assms]
  from process_iteration_Inr [OF can assms(2) hops(2)] obtain mash where
    pb: "processBlock ops s (rb_peek (m_inbuf s) (m_wlen s)) (m_mashbuf s) = Inr mash"
    and it: "process_iteration ops s =
       Inr (s\<lparr>m_inbuf := rb_skip (m_inbuf s) (m_n1 s),
              m_outbuf := rb_write (m_outbuf s) (\<lambda>i. mash ! i) (m_n2 s),
              m_mashbuf := shift_mashbuf ops s mash\<rparr>)"
    by blast
  define s' where "s' = s\<lparr>m_inbuf := rb_skip (m_inbuf s) (m_n1 s),
              m_outbuf := rb_write (m_outbuf s) (\<lambda>i. mash ! i) (m_n2 s),
              m_mashbuf := shift_mashbuf ops s mash\<rparr>"
  have len: "length mash = m_wlen s" by (rule length_processBlock [OF pb])
  from can have rd: "m_wlen s \<le> length (rb_data (m_inbuf s))"
    and wr: "m_n2 s \<le> getWriteSpace (m_outbuf s)"
    by (simp_all add: can_process_def getReadSpace_def)
  have sh: "m_mashbuf s' = drop (m_n2 s) mash @ replicate (m_n2 s) (fzero ops)"
    using shift_mashbuf_eq [OF hops(2) len] by (simp add: s'_def)
  have wrd: "rb_data (m_outbuf s') = rb_data (m_outbuf s) @ take (m_n2 s) mash"
    using wr hops(2) len by (simp add: s'_def rb_write_def min_absorb1 map_nth_upt)
  have "processBlock ops s (rb_peek (m_inbuf s) (m_wlen s)) (m_mashbuf s) = Inr mash \<and>
           process_iteration ops s = Inr s' \<and> inner_loop ops s = inner_loop ops s' \<and>
           rb_data (m_inbuf s') = drop (m_n1 s) (rb_data (m_inbuf s)) \<and>
           getReadSpace (m_inbuf s') + m_n1 s = getReadSpace (m_inbuf s) \<and>
           rb_data (m_outbuf s') = rb_data (m_outbuf s) @ take (m_n2 s) mash \<and>
           getReadSpace (m_outbuf s') = getReadSpace (m_outbuf s) + m_n2 s \<and>
           length (m_mashbuf s') = m_wlen s \<and>
           take (m_wlen s - m_n2 s) (m_mashbuf s') = drop (m_n2 s) mash \<and>
           drop (m_wlen s - m_n2 s) (m_mashbuf s') = replicate (m_n2 s) (fzero ops)"
  proof (intro conjI)
    show "processBlock ops s (rb_peek (m_inbuf s) (m_wlen s)) (m_mashbuf s) = Inr mash"
      by (rule pb)
    show "process_iteration ops s = Inr s'" using it by (simp add: s'_def)
    then show "inner_loop ops s = inner_loop ops s'"
      using can by (simp add: inner_loop.simps [of ops s])
    show "rb_data (m_inbuf s') = drop (m_n1 s) (rb_data (m_inbuf s))"
      by (simp add: s'_def rb_skip_def)
    show "getReadSpace (m_inbuf s') + m_n1 s = getReadSpace (m_inbuf s)"
      using rd hops by (simp add: s'_def rb_skip_def getReadSpace_def)
    show "rb_data (m_outbuf s') = rb_data (m_outbuf s) @ take (m_n2 s) mash"
      by (rule wrd)
    show "getReadSpace (m_outbuf s') = getReadSpace (m_outbuf s) + m_n2 s"
      using hops(2) len by (simp add: wrd getReadSpace_def)
    show "length (m_mashbuf s') = m_wlen s"
      using hops(2) len by (simp add: sh)
    show "take (m_wlen s - m_n2 s) (m_mashbuf s') = drop (m_n2 s) mash"
      using hops(2) len by (simp add: sh)
    show "drop (m_wlen s - m_n2 s) (m_mashbuf s') = replicate (m_n2 s) (fzero ops)"
      using hops(2) len by (simp add: sh)
  qed
  then show "\<exists>mash s'.
           processBlock ops s (rb_peek (m_inbuf s) (m_wlen s)) (m_mashbuf s) = Inr mash \<and>
           process_iteration ops s = Inr s' \<and> inner_loop ops s = inner_loop ops s' \<and>
           rb_data (m_inbuf s') = drop (m_n1 s) (rb_data (m_inbuf s)) \<and>
           getReadSpace (m_inbuf s') + m_n1 s = getReadSpace (m_inbuf s) \<and>
           rb_data (m_outbuf s') = rb_data (m_outbuf s) @ take (m_n2 s) mash \<and>
           getReadSpace (m_outbuf s') = getReadSpace (m_outbuf s) + m_n2 s \<and>
           length (m_mashbuf s') = m_wlen s \<and>
           take (m_wlen s - m_n2 s) (m_mashbuf s') = drop (m_n2 s) mash \<and>
           drop (m_wlen s - m_n2 s) (m_mashbuf s') = replicate (m_n2 s) (fzero ops)"
    by blast
qed

lemma example_processBlock:
  "processBlock example_ops example_filled (rb_peek (m_inbuf example_filled) (m_wlen example_filled))
     (m_mashbuf example_filled) = Inr [2, 4, 6, 8]"
  unfolding example_filled_eq by code_simp

text \<open>
  On \<open>example_filled\<close> the iteration drops the frame 8 from the input ring, sends
  \<open>[2, 4]\<close> to the output ring and leaves \<open>[6, 8, 0, 0]\<close> in \<^verbatim>\<open>m_mashbuf\<close>.
\<close>

theorem inner_loop_iteration_witness:
  "well_formed example_filled \<and> m_n2 example_filled \<noteq> 0 \<and> can_process example_filled \<and>
   (\<exists>s'. process_iteration example_ops example_filled = Inr s' \<and>
      rb_data (m_inbuf example_filled) = [8, 16, 24, 32] \<and>
      rb_data (m_inbuf s') = [16, 24, 32] \<and>
      rb_data (m_outbuf s') = [2, 4] \<and>
      take 2 (m_mashbuf s') = [6, 8] \<and> drop 2 (m_mashbuf s') = [0, 0])"
proof -
  have wf: "well_formed example_filled" by (simp add: example_filled_eq well_formed_def)
  have n2: "m_n2 example_filled \<noteq> 0" by (simp add: example_filled_eq)
  have can: "can_process example_filled"
    by (simp add: example_filled_eq can_process_def getReadSpace_def getWriteSpace_def)
  from inner_loop_iteration [OF wf n2, of example_ops] can
  obtain mash s' where
    "processBlock example_ops example_filled
       (rb_peek (m_inbuf example_filled) (m_wlen example_filled)) (m_mashbuf example_filled) = Inr mash"
    and "process_iteration example_ops example_filled = Inr s'"
    and "rb_data (m_inbuf s') = drop (m_n1 example_filled) (rb_data (m_inbuf example_filled))"
    and "rb_data (m_outbuf s') = rb_data (m_outbuf example_filled) @ take (m_n2 example_filled) mash"
    and "take (m_wlen example_filled - m_n2 example_filled) (m_mashbuf s') =
         drop (m_n2 example_filled) mash"
    and "drop (m_wlen example_filled - m_n2 example_filled) (m_mashbuf s') =
         replicate (m_n2 example_filled) (fzero example_ops)"
    by blast
  moreover from this(1) have "mash = [2, 4, 6, 8]" by (simp add: example_processBlock)
  ultimately have "process_iteration example_ops example_filled = Inr s' \<and>
      rb_data (m_inbuf example_filled) = [8, 16, 24, 32] \<and>
      rb_data (m_inbuf s') = [16, 24, 32] \<and>
      rb_data (m_outbuf s') = [2, 4] \<and>
      take 2 (m_mashbuf s') = [6, 8] \<and> drop 2 (m_mashbuf s') = [0, 0]"
    by (simp add: example_filled_eq example_ops_sel numeral_eq_Suc)
  with wf n2 can show ?thesis by blast
qed

lemma example_zero_filled_eq:
  "example_zero_filled =
     \<lparr>m_ratio = 1, m_n1 = 0, m_n2 = 0, m_wlen = 4,
      m_inbuf = \<lparr>rb_storage = 5, rb_data = [8, 16, 24, 32]\<rparr>,
      m_outbuf = \<lparr>rb_storage = 5, rb_data = []\<rparr>,
      m_window = ((), 4), m_mashbuf = [0, 0, 0, 0]\<rparr>"
proof -
  have "size_mul 0 1 = 0" "size_mul 0 2 = 0" "size_mul 4 1 = 4"
    by (simp_all add: size_mul_def)
  then show ?thesis
    unfolding example_zero_filled_def example_zero_hop_def IntegerTimeStretcher_new_def Let_def
    by (simp add: RingBuffer_new_def example_ops_sel replicate_4 rb_write_def getWriteSpace_def
        example_input_def upt_4)
qed

lemma example_wrapped_filled_eq:
  "example_wrapped_filled =
     \<lparr>m_ratio = 2 ^ 63, m_n1 = 2, m_n2 = 0, m_wlen = 4,
      m_inbuf = \<lparr>rb_storage = 5, rb_data = [8, 16, 24, 32]\<rparr>,
      m_outbuf = \<lparr>rb_storage = 1, rb_data = []\<rparr>,
      m_window = ((), 4), m_mashbuf = [0, 0, 0, 0]\<rparr>"
proof -
  have "size_mul 2 (2 ^ 63) = 0" "size_mul 0 2 = 0" "size_mul 4 (2 ^ 63) = 0"
    by (simp_all add: size_mul_def)
  then show ?thesis
    unfolding example_wrapped_filled_def example_wrapped_def IntegerTimeStretcher_new_def Let_def
    by (simp add: RingBuffer_new_def example_ops_sel replicate_4 rb_write_def getWriteSpace_def
        example_input_def upt_4)
qed

text \<open>
  C3 as stated fails where the synthesis hop is 0. In \<open>example_zero_filled\<close> (ratio
  1, input increment 0) and in \<open>example_wrapped_filled\<close> (ratio \<open>2 ^ 63\<close>, input
  increment 2, the product wrapped to 0) the loop condition holds, and the iteration
  stops at the division by zero in \<open>processBlock\<close>, before the input ring is advanced,
  the output ring written or \<^verbatim>\<open>m_mashbuf\<close> moved.
\<close>

theorem inner_loop_iteration_counterexample:
  "well_formed example_zero_filled \<and> can_process example_zero_filled \<and>
   process_iteration example_ops example_zero_filled = Inl DivisionByZero \<and>
   m_n1 example_wrapped_filled = 2 \<and> can_process example_wrapped_filled \<and>
   process_iteration example_ops example_wrapped_filled = Inl DivisionByZero"
proof -
  have wf: "well_formed example_zero_filled"
    by (simp add: example_zero_filled_eq well_formed_def)
  have c1: "can_process example_zero_filled"
    by (simp add: example_zero_filled_eq can_process_def getReadSpace_def getWriteSpace_def)
  have z1: "m_n2 example_zero_filled = 0" by (simp add: example_zero_filled_eq)
  have n1: "m_n1 example_wrapped_filled = 2" by (simp add: example_wrapped_filled_eq)
  have c2: "can_process example_wrapped_filled"
    by (simp add: example_wrapped_filled_eq can_process_def getReadSpace_def getWriteSpace_def)
  have z2: "m_n2 example_wrapped_filled = 0" by (simp add: example_wrapped_filled_eq)
  from wf c1 n1 c2 process_iteration_stops [OF c1 z1, of example_ops]
    process_iteration_stops [OF c2 z2, of example_ops]
  show ?thesis by simp
qed

subsection \<open>The output of process\<close>

lemma process_loop_zero_hop:
  assumes "m_n2 s = 0" and "consumed < samples"
    and "w = min (getWriteSpace (m_inbuf s)) (samples - consumed)" and "w \<noteq> 0"
    and "m_wlen s \<le> getReadSpace (m_inbuf s) + w"
  shows "process_loop ops s input samples consumed = Inl DivisionByZero"
proof -
  define s0 where "s0 = s\<lparr>m_inbuf := rb_write (m_inbuf s) (\<lambda>i. input (consumed + i)) w\<rparr>"
  from assms(3) have "w \<le> getWriteSpace (m_inbuf s)" by simp
  with assms(1,5) have can: "can_process s0"
    by (simp add: s0_def can_process_def rb_write_def getReadSpace_def min_absorb1)
  from assms(1) have "m_n2 s0 = 0" by (simp add: s0_def)
  from process_iteration_stops [OF can this]
  have "inner_loop ops s0 = Inl DivisionByZero"
    using can by (simp add: inner_loop.simps [of ops s0])
  then show ?thesis
    by (simp add: process_loop_step [OF assms(2,3,4)] s0_def)
qed

lemma drain_output_short:
  assumes "size_mul samples (m_ratio s) = n" and "length (rb_data (m_outbuf s)) < n"
  shows "drain_output ops s samples =
     (s\<lparr>m_outbuf := (m_outbuf s)\<lparr>rb_data := []\<rparr>\<rparr>,
      replicate (n - length (rb_data (m_outbuf s))) (fzero ops) @ rb_data (m_outbuf s))"
  using assms by (simp add: drain_output_def rb_read_def getReadSpace_def Let_def)

lemma process_returns:
  assumes "well_formed s" and "m_n2 s \<noteq> 0"
  shows "\<exists>s1 c s' out. process_loop ops s input samples 0 = Inr (s1, c) \<and>
     m_ratio s1 = m_ratio s \<and> drain_output ops s1 samples = (s', out) \<and>
     process ops s input samples = Inr (s', out) \<and>
     length out = size_mul samples (m_ratio s)"
proof -
  from assms have le: "m_n2 s \<le> m_wlen s" by (simp add: well_formed_def)
  from process_loop_returns [OF assms(2) le] obtain s1 c where
    pl: "process_loop ops s input samples 0 = Inr (s1, c)" by blast
  from process_loop_result [OF pl] have r: "m_ratio s1 = m_ratio s" by simp
  obtain s' out where d: "drain_output ops s1 samples = (s', out)"
    by (cases "drain_output ops s1 samples")
  from pl d have p: "process ops s input samples = Inr (s', out)"
    by (simp add: process_def)
  from d drain_output_length [of ops s1 samples] r
  have "length out = size_mul samples (m_ratio s)" by simp
  with pl r d p show ?thesis by blast
qed

text \<open>
  C2, amended. For every stretcher with ratio \<open>R \<ge> 1\<close> and input increment
  \<open>n1 \<ge> 1\<close> whose hops are the products the constructor means (\<open>n2 = n1 * R\<close> and
  \<open>2 * n2 \<le> W\<close>, neither wrapped around), and for every number of samples with
  \<open>samples * R\<close> in the range of \<^verbatim>\<open>size_t\<close>, the call of \<^verbatim>\<open>process\<close> returns, and
  stores exactly \<open>samples * R\<close> frames into \<^verbatim>\<open>output\<close>. When the output ring holds fewer
  than \<open>samples * R\<close> frames after the processing loop, \<^verbatim>\<open>output\<close> is the missing
  number of zeros followed by all the frames of the ring, which is left empty;
  otherwise it is the first \<open>samples * R\<close> frames of the ring.
\<close>

theorem process_output_length:
  assumes "well_formed s" and "1 \<le> m_ratio s" and "1 \<le> m_n1 s"
    and "samples * m_ratio s < 2 ^ 64"
  shows "\<exists>s1 c s' out.
     process_loop ops s input samples 0 = Inr (s1, c) \<and>
     process ops s input samples = Inr (s', out) \<and>
     length out = samples * m_ratio s \<and>
     (getReadSpace (m_outbuf s1) < samples * m_ratio s \<longrightarrow>
        out = replicate (samples * m_ratio s - getReadSpace (m_outbuf s1)) (fzero ops) @
              rb_data (m_outbuf s1) \<and>
        rb_data (m_outbuf s') = []) \<and>
     (samples * m_ratio s \<le> getReadSpace (m_outbuf s1) \<longrightarrow>
        out = take (samples * m_ratio s) (rb_data (m_outbuf s1)) \<and>
        rb_data (m_outbuf s') = drop (samples * m_ratio s) (rb_data (m_outbuf s1)))"
proof -
  from assms(1-3) have n2: "m_n2 s \<noteq> 0" by (simp add: well_formed_def)
  note sm = size_mul_small [OF assms(4)]
  from process_returns [OF assms(1) n2, of ops input samples] obtain s1 c s' out where
    pl: "process_loop ops s input samples 0 = Inr (s1, c)"
    and r: "m_ratio s1 = m_ratio s"
    and d: "drain_output ops s1 samples = (s', out)"
    and p: "process ops s input samples = Inr (s', out)"
    and len: "length out = samples * m_ratio s"
    unfolding sm by blast
  have lt: "out = replicate (samples * m_ratio s - getReadSpace (m_outbuf s1)) (fzero ops) @
              rb_data (m_outbuf s1) \<and> rb_data (m_outbuf s') = []"
    if "getReadSpace (m_outbuf s1) < samples * m_ratio s"
    using that d r sm
    by (auto simp: drain_output_def rb_read_def getReadSpace_def Let_def)
  have ge: "out = take (samples * m_ratio s) (rb_data (m_outbuf s1)) \<and>
        rb_data (m_outbuf s') = drop (samples * m_ratio s) (rb_data (m_outbuf s1))"
    if "samples * m_ratio s \<le> getReadSpace (m_outbuf s1)"
    using that d r sm
    by (auto simp: drain_output_def rb_read_def getReadSpace_def Let_def)
  from pl p len lt ge show ?thesis by blast
qed

lemma example_stretcher_loop:
  "process_loop example_ops example_stretcher example_input 4 0 =
     Inr (\<lparr>m_ratio = 2, m_n1 = 1, m_n2 = 2, m_wlen = 4,
         m_inbuf = \<lparr>rb_storage = 5, rb_data = [16, 24, 32]\<rparr>,
         m_outbuf = \<lparr>rb_storage = 9, rb_data = [2, 4]\<rparr>, m_window = ((), 4),
         m_mashbuf = [6, 8, 0, 0]\<rparr>, 4)"
  unfolding example_stretcher_eq by code_simp

text \<open>
  A first call on \<open>example_stretcher\<close> with four frames: two frames are ready, six
  zeros come before them.
\<close>

theorem process_output_length_witness:
  "well_formed example_stretcher \<and>
   1 \<le> m_ratio example_stretcher \<and> 1 \<le> m_n1 example_stretcher \<and>
   4 * m_ratio example_stretcher < 2 ^ 64 \<and>
   (\<exists>s'. process example_ops example_stretcher example_input 4 =
      Inr (s', [0, 0, 0, 0, 0, 0, 2, 4]))"
proof -
  have h0: "well_formed example_stretcher"
    by (simp add: example_stretcher_eq well_formed_def)
  have h2: "1 \<le> m_ratio example_stretcher" and h3: "1 \<le> m_n1 example_stretcher"
    and h4: "4 * m_ratio example_stretcher < 2 ^ 64"
    by (simp_all add: example_stretcher_eq)
  note pl = example_stretcher_loop
  from process_output_length [OF h0 h2 h3 h4, of example_ops example_input]
  obtain s1 c s' out where
    l: "process_loop example_ops example_stretcher example_input 4 0 = Inr (s1, c)"
    and p: "process example_ops example_stretcher example_input 4 = Inr (s', out)"
    and imp: "getReadSpace (m_outbuf s1) < 4 * m_ratio example_stretcher \<longrightarrow>
        out = replicate (4 * m_ratio example_stretcher - getReadSpace (m_outbuf s1))
                (fzero example_ops) @ rb_data (m_outbuf s1) \<and>
        rb_data (m_outbuf s') = []"
    by blast
  from l pl have ob: "m_outbuf s1 = \<lparr>rb_storage = 9, rb_data = [2, 4]\<rparr>" by auto
  have ratio: "m_ratio example_stretcher = 2" by (simp add: example_stretcher_eq)
  have rs: "getReadSpace (m_outbuf s1) = 2" by (simp add: ob getReadSpace_def)
  from imp have "out = replicate 6 (fzero example_ops) @ rb_data (m_outbuf s1)"
    by (simp add: ratio rs)
  then have "out = [0, 0, 0, 0, 0, 0, 2, 4]"
    by (simp add: ob example_ops_sel numeral_eq_Suc)
  with p h0 h2 h3 h4 show ?thesis by blast
qed

lemma example_zero_hop_eq:
  "example_zero_hop =
     \<lparr>m_ratio = 1, m_n1 = 0, m_n2 = 0, m_wlen = 4,
      m_inbuf = \<lparr>rb_storage = 5, rb_data = []\<rparr>,
      m_outbuf = \<lparr>rb_storage = 5, rb_data = []\<rparr>,
      m_window = ((), 4), m_mashbuf = [0, 0, 0, 0]\<rparr>"
proof -
  have "size_mul 0 1 = 0" "size_mul 0 2 = 0" "size_mul 4 1 = 4"
    by (simp_all add: size_mul_def)
  then show ?thesis
    unfolding example_zero_hop_def IntegerTimeStretcher_new_def Let_def
    by (simp add: RingBuffer_new_def example_ops_sel replicate_4)
qed

lemma example_wrapped_eq:
  "example_wrapped =
     \<lparr>m_ratio = 2 ^ 63, m_n1 = 2, m_n2 = 0, m_wlen = 4,
      m_inbuf = \<lparr>rb_storage = 5, rb_data = []\<rparr>,
      m_outbuf = \<lparr>rb_storage = 1, rb_data = []\<rparr>,
      m_window = ((), 4), m_mashbuf = [0, 0, 0, 0]\<rparr>"
proof -
  have "size_mul 2 (2 ^ 63) = 0" "size_mul 0 2 = 0" "size_mul 4 (2 ^ 63) = 0"
    by (simp_all add: size_mul_def)
  then show ?thesis
    unfolding example_wrapped_def IntegerTimeStretcher_new_def Let_def
    by (simp add: RingBuffer_new_def example_ops_sel replicate_4)
qed

lemma example_zero_hop_loop:
  "process_loop example_ops example_zero_hop example_input 4 0 = Inl DivisionByZero"
  by (rule process_loop_zero_hop [where w = 4])
     (simp_all add: example_zero_hop_eq getWriteSpace_def getReadSpace_def)

lemma example_wrapped_loop:
  "process_loop example_ops example_wrapped example_input 4 0 = Inl DivisionByZero"
  by (rule process_loop_zero_hop [where w = 4])
     (simp_all add: example_wrapped_eq getWriteSpace_def getReadSpace_def)

lemma example_wide_length:
  "case process example_ops example_wide example_input (2 ^ 32) of
     Inl e \<Rightarrow> False | Inr (s', out) \<Rightarrow> length out = 0"
proof -
  have b: "2 * (2 ^ 32 * 1) < (2::nat) ^ 64" by simp
  have wf: "well_formed example_wide"
    unfolding example_wide_def by (rule well_formed_new [OF b])
  have r: "m_ratio example_wide = 2 ^ 32"
    by (simp add: example_wide_def constructor_fields)
  have n2: "m_n2 example_wide \<noteq> 0"
    by (simp add: example_wide_def constructor_fields size_mul_def)
  have z: "size_mul (2 ^ 32) (2 ^ 32) = 0" by (simp add: size_mul_def)
  from process_returns [OF wf n2, of example_ops example_input "2 ^ 32"] r z
  show ?thesis by auto
qed

text \<open>
  C2 as stated, for every stretcher with \<open>R \<ge> 1\<close>, fails in three ways. With ratio 1
  and an input increment of 0 the synthesis hop is 0: the first block that
  \<^verbatim>\<open>process\<close> hands to \<open>processBlock\<close> divides by zero, and the call stores nothing
  into \<^verbatim>\<open>output\<close>; the constructor accepts any input increment. With ratio \<open>2 ^ 63\<close>
  and input increment 2 the hop wraps to 0, with the same end. With ratio \<open>2 ^ 32\<close>
  and \<open>2 ^ 32\<close> samples, within the largest input block, \<open>samples * R\<close> wraps to 0
  and the call stores no frame where \<open>2 ^ 64\<close> are claimed.
\<close>

theorem process_zero_hop_counterexample:
  "1 \<le> m_ratio example_zero_hop \<and> m_n1 example_zero_hop = 0 \<and>
   process example_ops example_zero_hop example_input 4 = Inl DivisionByZero \<and>
   1 \<le> m_ratio example_wrapped \<and> m_n1 example_wrapped = 2 \<and>
   process example_ops example_wrapped example_input 4 = Inl DivisionByZero \<and>
   well_formed example_wide \<and> m_ratio example_wide = 2 ^ 32 \<and> m_n1 example_wide = 1 \<and>
   (case process example_ops example_wide example_input (2 ^ 32) of
      Inl e \<Rightarrow> False | Inr (s', out) \<Rightarrow> length out = 0)"
proof -
  have "1 \<le> m_ratio example_zero_hop" "m_n1 example_zero_hop = 0"
    by (simp_all add: example_zero_hop_eq)
  moreover have "process example_ops example_zero_hop example_input 4 = Inl DivisionByZero"
    by (simp add: process_def example_zero_hop_loop)
  moreover have "1 \<le> m_ratio example_wrapped" "m_n1 example_wrapped = 2"
    by (simp_all add: example_wrapped_eq)
  moreover have "process example_ops example_wrapped example_input 4 = Inl DivisionByZero"
    by (simp add: process_def example_wrapped_loop)
  moreover have "well_formed example_wide"
    unfolding example_wide_def by (rule well_formed_new) simp
  moreover have "m_ratio example_wide = 2 ^ 32" "m_n1 example_wide = 1"
    by (simp_all add: example_wide_def constructor_fields)
  ultimately show ?thesis using example_wide_length by simp
qed

subsection \<open>Progress of the outer loop\<close>

text \<open>
  C10, amended. For a stretcher whose hops are the products the constructor means and
  whose synthesis hop is not zero, the outer loop of \<^verbatim>\<open>process\<close> returns for every
  number of samples; its definition is accepted with the measure
  \<open>samples - consumed\<close>, and the inner loop with the write space of the output ring.
  An iteration that starts with no write space in the input ring leaves the loop with
  the state and the count of consumed frames as they are, whether or not the inner
  loop could have processed a block. Any other iteration writes \<open>w \<ge> 1\<close> further
  input frames, so that the count grows strictly and stays within \<open>samples\<close>, and
  goes on after the inner loop has returned. When the loop returns with fewer than
  \<open>samples\<close> frames consumed, the input ring is full, and the frames of \<^verbatim>\<open>input\<close> from
  the final count on were never read: replacing them changes neither the state nor
  the count.
\<close>

theorem process_loop_progress:
  assumes "consumed < samples" and "well_formed s" and "m_n2 s \<noteq> 0"
  shows
    "(getWriteSpace (m_inbuf s) = 0 \<longrightarrow>
        process_loop ops s input samples consumed = Inr (s, consumed)) \<and>
     (0 < getWriteSpace (m_inbuf s) \<longrightarrow>
        (\<exists>w s1. w = min (getWriteSpace (m_inbuf s)) (samples - consumed) \<and>
           consumed < consumed + w \<and> consumed + w \<le> samples \<and>
           inner_loop ops
             (s\<lparr>m_inbuf := rb_write (m_inbuf s) (\<lambda>i. input (consumed + i)) w\<rparr>) = Inr s1 \<and>
           process_loop ops s input samples consumed =
             process_loop ops s1 input samples (consumed + w))) \<and>
     (\<exists>s' c'. process_loop ops s input samples consumed = Inr (s', c') \<and>
        consumed \<le> c' \<and> c' \<le> samples \<and>
        (c' < samples \<longrightarrow> getWriteSpace (m_inbuf s') = 0) \<and>
        (\<forall>input'. (\<forall>i. i < c' \<longrightarrow> input' i = input i) \<longrightarrow>
           process_loop ops s input' samples consumed = Inr (s', c')))"
proof (intro conjI impI)
  assume "getWriteSpace (m_inbuf s) = 0"
  with assms(1) show "process_loop ops s input samples consumed = Inr (s, consumed)"
    by (rule process_loop_break)
next
  assume sp: "0 < getWriteSpace (m_inbuf s)"
  define w where "w = min (getWriteSpace (m_inbuf s)) (samples - consumed)"
  define s0 where "s0 = s\<lparr>m_inbuf := rb_write (m_inbuf s) (\<lambda>i. input (consumed + i)) w\<rparr>"
  from sp assms(1) have w0: "w \<noteq> 0" by (simp add: w_def)
  have le: "consumed + w \<le> samples" using assms(1) by (simp add: w_def)
  from assms(2,3) have "m_n2 s0 \<noteq> 0" and "m_n2 s0 \<le> m_wlen s0"
    by (simp_all add: s0_def well_formed_def)
  from inner_loop_returns [OF this] obtain s1 where il: "inner_loop ops s0 = Inr s1"
    by blast
  with process_loop_step [OF assms(1) w_def w0, of ops input]
  have "process_loop ops s input samples consumed =
      process_loop ops s1 input samples (consumed + w)"
    by (simp add: s0_def)
  with w0 le il w_def
  show "\<exists>w s1. w = min (getWriteSpace (m_inbuf s)) (samples - consumed) \<and>
           consumed < consumed + w \<and> consumed + w \<le> samples \<and>
           inner_loop ops
             (s\<lparr>m_inbuf := rb_write (m_inbuf s) (\<lambda>i. input (consumed + i)) w\<rparr>) = Inr s1 \<and>
           process_loop ops s input samples consumed =
             process_loop ops s1 input samples (consumed + w)"
    by (intro exI [of _ w] exI [of _ s1]) (simp add: s0_def)
next
  from assms(2,3) have n2le: "m_n2 s \<le> m_wlen s" by (simp add: well_formed_def)
  from process_loop_returns [OF assms(3) n2le] obtain s' c' where
    r: "process_loop ops s input samples consumed = Inr (s', c')" by blast
  have ni: "process_loop ops s input' samples consumed = Inr (s', c')"
    if "\<forall>i. i < c' \<longrightarrow> input' i = input i" for input'
    using that by (intro process_loop_input [OF r]) simp
  from process_loop_result [OF r] assms(1)
  have "consumed \<le> c'" and "c' \<le> samples"
    and "c' < samples \<longrightarrow> getWriteSpace (m_inbuf s') = 0"
    by simp_all
  with r ni
  show "\<exists>s' c'. process_loop ops s input samples consumed = Inr (s', c') \<and>
        consumed \<le> c' \<and> c' \<le> samples \<and>
        (c' < samples \<longrightarrow> getWriteSpace (m_inbuf s') = 0) \<and>
        (\<forall>input'. (\<forall>i. i < c' \<longrightarrow> input' i = input i) \<longrightarrow>
           process_loop ops s input' samples consumed = Inr (s', c'))"
    by (intro exI [of _ s'] exI [of _ c']) simp
qed

lemma example_small_eq:
  "example_small =
     \<lparr>m_ratio = 2, m_n1 = 1, m_n2 = 2, m_wlen = 4,
      m_inbuf = \<lparr>rb_storage = 5, rb_data = []\<rparr>, m_outbuf = \<lparr>rb_storage = 3, rb_data = []\<rparr>,
      m_window = ((), 4), m_mashbuf = [0, 0, 0, 0]\<rparr>"
proof -
  have "size_mul 1 2 = 2" "size_mul 2 2 = 4"
    by (simp_all add: size_mul_def)
  then show ?thesis
    unfolding example_small_def IntegerTimeStretcher_new_def Let_def
    by (simp add: RingBuffer_new_def example_ops_sel replicate_4)
qed

lemma example_small_loop:
  "process_loop example_ops example_small example_input 8 0 =
     Inr (\<lparr>m_ratio = 2, m_n1 = 1, m_n2 = 2, m_wlen = 4,
         m_inbuf = \<lparr>rb_storage = 5, rb_data = [16, 24, 32, 40]\<rparr>,
         m_outbuf = \<lparr>rb_storage = 3, rb_data = [2, 4]\<rparr>, m_window = ((), 4),
         m_mashbuf = [6, 8, 0, 0]\<rparr>, 5)"
  unfolding example_small_eq by code_simp

text \<open>
  On \<open>example_small\<close>, whose output ring has room for two frames, a call with eight
  frames consumes five of them and drops the other three.
\<close>

theorem process_loop_progress_witness:
  "(0::nat) < 8 \<and> well_formed example_small \<and> m_n2 example_small \<noteq> 0 \<and>
   (\<exists>s'. process_loop example_ops example_small example_input 8 0 = Inr (s', 5) \<and>
      getWriteSpace (m_inbuf s') = 0 \<and>
      process_loop example_ops example_small (\<lambda>i. if i < 5 then example_input i else 0) 8 0
        = Inr (s', 5))"
proof -
  have h: "(0::nat) < 8" by simp
  have wf: "well_formed example_small" by (simp add: example_small_eq well_formed_def)
  have n2: "m_n2 example_small \<noteq> 0" by (simp add: example_small_eq)
  note pl = example_small_loop
  from process_loop_progress [OF h wf n2, of example_ops example_input,
      THEN conjunct2, THEN conjunct2]
  obtain s' c' where r: "process_loop example_ops example_small example_input 8 0 = Inr (s', c')"
    and full: "c' < 8 \<longrightarrow> getWriteSpace (m_inbuf s') = 0"
    and ni: "\<And>input'. (\<forall>i. i < c' \<longrightarrow> input' i = example_input i) \<Longrightarrow>
        process_loop example_ops example_small input' 8 0 = Inr (s', c')"
    by blast
  from r pl have c: "c' = 5" by simp
  have agree: "\<forall>i. i < c' \<longrightarrow> (if i < 5 then example_input i else 0) = example_input i"
    by (simp add: c)
  show ?thesis
  proof (intro conjI exI)
    show "(0::nat) < 8" by (rule h)
    show "well_formed example_small" by (rule wf)
    show "m_n2 example_small \<noteq> 0" by (rule n2)
    show "process_loop example_ops example_small example_input 8 0 = Inr (s', 5)"
      using r c by simp
    show "getWriteSpace (m_inbuf s') = 0" using full c by simp
    show "process_loop example_ops example_small
        (\<lambda>i. if i < 5 then example_input i else 0) 8 0 = Inr (s', 5)"
      using ni [OF agree] c by simp
  qed
qed

lemma example_tight_eq:
  "example_tight =
     \<lparr>m_ratio = 1, m_n1 = 2, m_n2 = 2, m_wlen = 4,
      m_inbuf = \<lparr>rb_storage = 5, rb_data = []\<rparr>, m_outbuf = \<lparr>rb_storage = 4, rb_data = []\<rparr>,
      m_window = ((), 4), m_mashbuf = [0, 0, 0, 0]\<rparr>"
proof -
  have "size_mul 2 (Suc 0) = 2" "size_mul 2 2 = 4" "size_mul 3 (Suc 0) = 3"
    by (simp_all add: size_mul_def)
  then show ?thesis
    unfolding example_tight_def IntegerTimeStretcher_new_def Let_def
    by (simp add: RingBuffer_new_def example_ops_sel replicate_4)
qed

lemma example_tight_loops:
  "process_loop example_ops example_tight example_input 3 0 = Inr (example_tight_once, 3)"
  "process_loop example_ops example_tight_once example_input 3 0 =
     Inr (example_stuck\<lparr>m_outbuf := \<lparr>rb_storage = 4, rb_data = [2, 4]\<rparr>\<rparr>, 3)"
  "process_loop example_ops example_stuck example_input 3 0 = Inr (example_stuck, 0)"
  unfolding example_tight_eq by code_simp+

lemma size_mul_3_1: "size_mul 3 1 = 3" "size_mul 3 (Suc 0) = 3"
  by (simp_all add: size_mul_def)

lemma replicate_3: "replicate 3 x = [x, x, x]"
  by (simp add: numeral_eq_Suc)

lemma example_tight_calls:
  "process example_ops example_tight example_input 3 = Inr (example_tight_once, [0, 0, 0])"
  "process example_ops example_tight_once example_input 3 = Inr (example_stuck, [0, 2, 4])"
  "process example_ops example_stuck example_input 3 = Inr (example_stuck, [0, 0, 0])"
proof -
  have d1: "drain_output example_ops example_tight_once 3 = (example_tight_once, [0, 0, 0])"
    by (subst drain_output_short [where n = 3])
       (simp_all add: example_tight_once_def size_mul_3_1 example_ops_sel replicate_3)
  have d2: "drain_output example_ops
      (example_stuck\<lparr>m_outbuf := \<lparr>rb_storage = 4, rb_data = [2, 4]\<rparr>\<rparr>) 3 =
      (example_stuck, [0, 2, 4])"
    by (subst drain_output_short [where n = 3])
       (simp_all add: example_stuck_def size_mul_3_1 example_ops_sel)
  have d3: "drain_output example_ops example_stuck 3 = (example_stuck, [0, 0, 0])"
    by (subst drain_output_short [where n = 3])
       (simp_all add: example_stuck_def size_mul_3_1 example_ops_sel replicate_3)
  show "process example_ops example_tight example_input 3 = Inr (example_tight_once, [0, 0, 0])"
    by (simp add: process_def example_tight_loops d1)
  show "process example_ops example_tight_once example_input 3 = Inr (example_stuck, [0, 2, 4])"
    by (simp add: process_def example_tight_loops d2)
  show "process example_ops example_stuck example_input 3 = Inr (example_stuck, [0, 0, 0])"
    by (simp add: process_def example_tight_loops d3)
qed

text \<open>
  C10 as stated fails in two ways. With a zero synthesis hop the loop does not
  return: it stops at the division by zero in \<open>processBlock\<close>. And the loop is left
  on a full input ring alone, also when the inner loop could process a block:
  \<open>example_tight\<close> reaches, after two calls with three frames each, the state
  \<open>example_stuck\<close>, in which the input ring is full, the output ring is empty and the
  condition of the inner loop holds; every further call consumes no frame, stores
  zeros and leaves the state as it is.
\<close>

theorem process_loop_progress_counterexample:
  "process_loop example_ops example_zero_hop example_input 4 0 = Inl DivisionByZero \<and>
   process example_ops example_tight example_input 3 = Inr (example_tight_once, [0, 0, 0]) \<and>
   process example_ops example_tight_once example_input 3 = Inr (example_stuck, [0, 2, 4]) \<and>
   getWriteSpace (m_inbuf example_stuck) = 0 \<and> can_process example_stuck \<and>
   process_loop example_ops example_stuck example_input 3 0 = Inr (example_stuck, 0) \<and>
   process example_ops example_stuck example_input 3 = Inr (example_stuck, [0, 0, 0])"
proof -
  have "getWriteSpace (m_inbuf example_stuck) = 0" and "can_process example_stuck"
    by (simp_all add: example_stuck_def can_process_def getWriteSpace_def getReadSpace_def)
  with example_zero_hop_loop example_tight_calls example_tight_loops(3)
  show ?thesis by simp
qed

end
